theory Spec2Isabelle
  imports Complex_Main "HOL-Library.AList" "HOL-Library.Word"
begin

section \<open>Data model\<close>

text \<open>
  The exceptions the two notebooks can raise from the code modelled here:
  \<^item> \<open>ValueError\<close>: tuple unpacking of the wrong arity, and NumPy's shape mismatch in
    \<open>dot\<close> and in elementwise arithmetic;
  \<^item> \<open>IndexError\<close>: a list index out of range;
  \<^item> \<open>LinAlgError\<close>: raised by \<open>numpy.linalg.inv\<close>;
  \<^item> \<open>OverflowError\<close>: a Python integer that does not fit the C type \<open>ssize_t\<close> of the
    library function it is passed to (\<open>itertools.repeat\<close>).
\<close>

datatype error = ValueError | IndexError | LinAlgError | OverflowError

text \<open>
  A Python \<open>dict\<close> keeps its keys in insertion order and holds each key once: it is an
  association list with distinct keys. The parameter space of Lab00 maps a name to the
  list of its candidate values; an experiment maps each name to one value.
\<close>

type_synonym ('k, 'v) param_space = "('k \<times> 'v list) list"
type_synonym ('k, 'v) experiment_dict = "('k \<times> 'v) list"

subsection \<open>Double-precision numbers\<close>

text \<open>
  Python's \<open>float\<close> is the IEEE 754 binary64 format: a significand of 53 bits, and every
  arithmetic operation returns the exact result rounded to the nearest representable
  number, a tie going to the neighbour whose significand is even. A finite double is
  represented by the real number it denotes.

  \<open>rne\<close> rounds a real to the nearest integer, ties to even. \<open>ulp x\<close> is the distance
  between the doubles around \<open>x\<close>: \<open>2^(e-52)\<close> for \<open>2^e \<le> |x| < 2^(e+1)\<close>, and \<open>2^(-1074)\<close>
  throughout the subnormal range. \<open>round_double x\<close> is the multiple of \<open>ulp x\<close> nearest to
  \<open>x\<close>, the rounding of IEEE 754 as long as the result is below the overflow threshold
  \<open>2^1024\<close>.
\<close>

definition rne :: "real \<Rightarrow> int" where
  "rne m = (let f = \<lfloor>m\<rfloor>; d = m - of_int f
            in if d < 1 / 2 then f else if 1 / 2 < d then f + 1
               else if even f then f else f + 1)"

definition ulp :: "real \<Rightarrow> real" where
  "ulp x = 2 powi (max (\<lfloor>log 2 \<bar>x\<bar>\<rfloor> - 52) (- 1074))"

definition round_double :: "real \<Rightarrow> real" where
  "round_double x = (if x = 0 then 0 else sgn x * of_int (rne (\<bar>x\<bar> / ulp x)) * ulp x)"

text \<open>
  The conversion of a length to \<open>float\<close> (\<open>n += 0.0\<close> on an \<open>int\<close>): the nearest double.
  A Python list has fewer than \<open>2^63\<close> elements, so the conversion cannot overflow.
\<close>

definition py_float :: "nat \<Rightarrow> real" where
  "py_float n = round_double (real n)"

text \<open>
  The values of a double: a finite number, the two infinities and NaN. \<open>Fin\<close> carries the
  real number denoted; the two zeros are one value, which the operations below and the
  comparison \<open>==\<close> do not tell apart. \<open>rnd\<close> is the rounding of an exact result with overflow:
  a result that rounds to \<open>2^1024\<close> or beyond in magnitude becomes an infinity.
\<close>

datatype fp = Fin real | PInf | NInf | NaN

definition rnd :: "real \<Rightarrow> fp" where
  "rnd x = (let y = round_double x
            in if 2 ^ 1024 \<le> \<bar>y\<bar> then (if 0 < x then PInf else NInf) else Fin y)"

text \<open>The sign of a double that is not NaN, as \<open>-1\<close>, \<open>0\<close> or \<open>1\<close>.\<close>

definition fp_sgn :: "fp \<Rightarrow> real" where
  "fp_sgn a = (case a of Fin x \<Rightarrow> sgn x | PInf \<Rightarrow> 1 | NInf \<Rightarrow> - 1 | NaN \<Rightarrow> 0)"

text \<open>
  Subtraction and multiplication of doubles (IEEE 754): NaN propagates, the difference of
  two equal infinities and the product of zero and an infinity are NaN, and NumPy raises
  no exception for them (it warns).
\<close>

definition fp_sub :: "fp \<Rightarrow> fp \<Rightarrow> fp" where
  "fp_sub a b =
     (case (a, b) of
        (NaN, _) \<Rightarrow> NaN
      | (_, NaN) \<Rightarrow> NaN
      | (Fin x, Fin y) \<Rightarrow> rnd (x - y)
      | (PInf, PInf) \<Rightarrow> NaN
      | (NInf, NInf) \<Rightarrow> NaN
      | (PInf, _) \<Rightarrow> PInf
      | (NInf, _) \<Rightarrow> NInf
      | (Fin x, PInf) \<Rightarrow> NInf
      | (Fin x, NInf) \<Rightarrow> PInf)"

definition fp_mul :: "fp \<Rightarrow> fp \<Rightarrow> fp" where
  "fp_mul a b =
     (case (a, b) of
        (NaN, _) \<Rightarrow> NaN
      | (_, NaN) \<Rightarrow> NaN
      | (Fin x, Fin y) \<Rightarrow> rnd (x * y)
      | _ \<Rightarrow> (if fp_sgn a * fp_sgn b = 0 then NaN
               else if 0 < fp_sgn a * fp_sgn b then PInf else NInf))"

text \<open>The comparison \<open>a == b\<close> of two doubles: false as soon as one of them is NaN.\<close>

definition fp_eq :: "fp \<Rightarrow> fp \<Rightarrow> bool" where
  "fp_eq a b = (a \<noteq> NaN \<and> b \<noteq> NaN \<and> a = b)"

subsection \<open>The random generator\<close>

text \<open>
  The state of Python's global random generator: the values that the successive calls
  of \<open>random.random()\<close> will return. The Mersenne Twister behind it returns
  \<open>(a * 2^26 + b) / 2^53\<close> for a 27-bit \<open>a\<close> and a 26-bit \<open>b\<close>: a multiple of \<open>2^(-53)\<close> in the
  half-open unit interval.
\<close>

type_synonym rng = "nat \<Rightarrow> real"

definition rng_ok :: "rng \<Rightarrow> bool" where
  "rng_ok g = (\<forall>i. \<exists>k<2 ^ 53. g i = real k / 2 ^ 53)"

section \<open>Lab00: the parameter grid generator\<close>

text \<open>
  \<open>itertools.product(*pools)\<close>, as the library documents it:
  \<^verbatim>\<open>
    result = [[]]
    for pool in pools:
        result = [x+[y] for x in result for y in pool]
  \<close>
\<close>

definition itertools_product :: "'a list list \<Rightarrow> 'a list list" where
  "itertools_product pools =
     foldl (\<lambda>result pool. concat (map (\<lambda>x. map (\<lambda>y. x @ [y]) pool) result)) [[]] pools"

text \<open>
  \<open>dict(pairs)\<close>: the pairs are stored one after the other; a key seen before keeps its
  place and takes the new value.
\<close>

definition dict :: "('k \<times> 'v) list \<Rightarrow> ('k \<times> 'v) list" where
  "dict kvs = foldl (\<lambda>d (k, v). AList.update k v d) [] kvs"

text \<open>
  \<^verbatim>\<open>
    def get_param_grid(params):
        keys, values = zip(*params.items())
        experiments = [dict(zip(keys, v)) for v in itertools.product(*values)]
        return experiments
  \<close>
  \<open>zip(*params.items())\<close> transposes the list of (key, value list) pairs into the tuple of
  keys and the tuple of value lists. On an empty dictionary it yields nothing, and the
  unpacking into \<open>keys, values\<close> raises \<open>ValueError\<close>.
\<close>

definition get_param_grid :: "('k, 'v) param_space \<Rightarrow> error + ('k, 'v) experiment_dict list" where
  "get_param_grid params =
     (case params of
        [] \<Rightarrow> Inl ValueError
      | _ # _ \<Rightarrow>
          (let keys = map fst params; vals = map snd params
           in Inr (map (\<lambda>v. dict (zip keys v)) (itertools_product vals))))"

text \<open>Python's \<open>xs[i]\<close>: a negative index counts from the end, out of range raises.\<close>

definition py_nth :: "'a list \<Rightarrow> int \<Rightarrow> error + 'a" where
  "py_nth xs i =
     (let n = int (length xs); j = (if i < 0 then n + i else i)
      in if 0 \<le> j \<and> j < n then Inr (xs ! nat j) else Inl IndexError)"

text \<open>\<open>random.random()\<close>: returns the next value and advances the generator.\<close>

definition random_random :: "rng \<Rightarrow> real \<times> rng" where
  "random_random g = (g 0, \<lambda>i. g (Suc i))"

text \<open>
  \<open>random.choices(population, k=k)\<close> without weights (CPython 3.9, the notebook's kernel):
  \<^verbatim>\<open>
    n = len(population)
    n += 0.0
    return [population[floor(random() * n)] for i in _repeat(None, k)]
  \<close>
  The product \<open>random() * n\<close> is a product of doubles, so it is rounded before \<open>floor\<close>
  is taken. \<open>choices_loop\<close> is the list comprehension once its iterator exists, with the
  number of items the iterator still has to yield.

  The iterator \<open>itertools.repeat(None, k)\<close> is built before anything is drawn. Its count is
  a C \<open>ssize_t\<close> (64 bits on the notebook's platform): a \<open>k\<close> outside \<open>-2^63 \<le> k < 2^63\<close>
  raises \<open>OverflowError\<close>, and a negative \<open>k\<close> inside it yields nothing, so that the loop
  runs \<open>nat k\<close> times.
\<close>

fun choices_loop :: "'a list \<Rightarrow> real \<Rightarrow> nat \<Rightarrow> rng \<Rightarrow> (error + 'a list) \<times> rng" where
  "choices_loop population n 0 g = (Inr [], g)"
| "choices_loop population n (Suc k) g =
     (let (r, g1) = random_random g
      in case py_nth population \<lfloor>round_double (r * n)\<rfloor> of
           Inl e \<Rightarrow> (Inl e, g1)
         | Inr c \<Rightarrow>
             (case choices_loop population n k g1 of
                (Inl e, g2) \<Rightarrow> (Inl e, g2)
              | (Inr cs, g2) \<Rightarrow> (Inr (c # cs), g2)))"

definition random_choices :: "'a list \<Rightarrow> int \<Rightarrow> rng \<Rightarrow> (error + 'a list) \<times> rng" where
  "random_choices population k g =
     (let n = py_float (length population)
      in if - (2 ^ 63) \<le> k \<and> k < 2 ^ 63 then choices_loop population n (nat k) g
         else (Inl OverflowError, g))"

text \<open>
  \<^verbatim>\<open>
    def get_random_grid(params, n):
        experiments = get_param_grid(params)
        experiments = random.choices(experiments, k=n)
        return experiments
  \<close>
\<close>

definition get_random_grid ::
  "('k, 'v) param_space \<Rightarrow> int \<Rightarrow> rng \<Rightarrow> (error + ('k, 'v) experiment_dict list) \<times> rng" where
  "get_random_grid params n g =
     (case get_param_grid params of
        Inl e \<Rightarrow> (Inl e, g)
      | Inr experiments \<Rightarrow> random_choices experiments n g)"

text \<open>
  The odometer reading: digit \<open>j\<close> of the index \<open>i\<close> in the mixed-radix system whose
  radices are the lengths of the pools, the last pool being the least significant digit.
\<close>

definition odometer :: "'a list list \<Rightarrow> nat \<Rightarrow> nat \<Rightarrow> nat" where
  "odometer pools i j =
     (i div prod_list (map length (drop (Suc j) pools))) mod length (pools ! j)"

section \<open>Lab01: the Gaussian process posterior\<close>

text \<open>
  The covariance function is embedded twice. \<open>exponential_cov\<close> and the array operations
  on \<open>real\<close> are the formulas of the code taken over the real numbers; they serve the
  statement on \<open>conditional\<close> without observations, where the code returns the prior
  covariance minus an exact zero matrix and nothing depends on how the entries were
  rounded. \<open>exponential_cov_f64\<close> is the same line of code in NumPy's arithmetic: doubles
  with rounding, overflow, the infinities and NaN, and 64-bit integers that wrap around;
  the symmetry of the covariance matrix, an entry-by-entry comparison with \<open>==\<close>, is
  stated on it.

  A two-dimensional array carries its shape: \<open>elems\<close> is the list of its \<open>nrows\<close> rows,
  each of length \<open>ncols\<close>, so that the shapes \<open>(m, 0)\<close> and \<open>(0, m)\<close> differ. One-dimensional
  arrays and Python lists of floats are lists of reals.
\<close>

datatype mat = Mat (nrows: nat) (ncols: nat) (elems: "real list list")


definition mk_mat :: "nat \<Rightarrow> nat \<Rightarrow> (nat \<Rightarrow> nat \<Rightarrow> real) \<Rightarrow> mat" where
  "mk_mat r c f = Mat r c (map (\<lambda>i. map (\<lambda>j. f i j) [0..<c]) [0..<r])"

definition entry :: "mat \<Rightarrow> nat \<Rightarrow> nat \<Rightarrow> real" where
  "entry M i j = elems M ! i ! j"

definition wf_mat :: "mat \<Rightarrow> bool" where
  "wf_mat M = (length (elems M) = nrows M \<and> list_all (\<lambda>r. length r = ncols M) (elems M))"

text \<open>An exception ends the computation: the rest of the function body is skipped.\<close>

definition err_bind :: "error + 'a \<Rightarrow> ('a \<Rightarrow> error + 'b) \<Rightarrow> error + 'b" where
  "err_bind r f = (case r of Inl e \<Rightarrow> Inl e | Inr v \<Rightarrow> f v)"




text \<open>
  The same function in NumPy's arithmetic, operation by operation. A list of points
  becomes a one-dimensional array: of doubles (\<open>float64\<close>) when the list holds floats, of
  64-bit integers (\<open>int64\<close>) when it holds Python integers in that range.
\<close>

datatype nparray = F64 "fp list" | I64 "64 word list"

definition array_len :: "nparray \<Rightarrow> nat" where
  "array_len a = (case a of F64 xs \<Rightarrow> length xs | I64 ws \<Rightarrow> length ws)"

text \<open>The conversion of an \<open>int64\<close> to \<open>float64\<close>: the nearest double.\<close>

definition int64_to_double :: "64 word \<Rightarrow> fp" where
  "int64_to_double w = rnd (real_of_int (sint w))"

definition as_float64 :: "nparray \<Rightarrow> fp list" where
  "as_float64 a = (case a of F64 xs \<Rightarrow> xs | I64 ws \<Rightarrow> map int64_to_double ws)"

text \<open>
  \<open>np.subtract.outer(x, y)**2\<close>, as the array of doubles that the product with the scalar
  \<open>-0.5 * theta[1]\<close> works on. Between two \<open>int64\<close> arrays the differences and their
  squares (\<open>d**2\<close> is \<open>d * d\<close>) are taken in \<open>int64\<close>, where they wrap around, and the
  squares are converted when they meet the float scalar. As soon as one array is
  \<open>float64\<close> the other is converted first, and each difference and each square is
  rounded.
\<close>

definition squared_differences :: "nparray \<Rightarrow> nparray \<Rightarrow> fp list list" where
  "squared_differences x y =
     (case (x, y) of
        (I64 a, I64 b) \<Rightarrow> map (\<lambda>p. map (\<lambda>q. int64_to_double ((p - q) * (p - q))) b) a
      | _ \<Rightarrow> map (\<lambda>p. map (\<lambda>q. fp_mul (fp_sub p q) (fp_sub p q)) (as_float64 y))
                (as_float64 x))"

text \<open>
  \<open>theta[0]\<close> is read first, then \<open>theta[1]\<close>; the scalar \<open>-0.5 * theta[1]\<close> is computed
  once; each squared difference is scaled by it, passed to \<open>np.exp\<close> and scaled by
  \<open>theta[0]\<close>, each product being rounded. The result is the list of the rows of the
  matrix. The entries of \<open>theta\<close> are doubles; a Python integer there (the notebook uses
  \<open>[1, 10]\<close>) enters the arithmetic converted to a double, which up to \<open>2^53\<close> in magnitude
  has the same value.

  \<open>np.exp\<close> is a library routine on doubles, accurate to within a unit in the last place
  but not specified bit by bit; the function takes it as the parameter \<open>np_exp\<close>, a
  function of its argument. \<open>fp_exp\<close> is the correctly rounded exponential, with which
  \<open>np.exp\<close> agrees wherever the exact result is a double or overflows.
\<close>

definition fp_exp :: "fp \<Rightarrow> fp" where
  "fp_exp a = (case a of Fin x \<Rightarrow> rnd (exp x) | PInf \<Rightarrow> PInf | NInf \<Rightarrow> Fin 0 | NaN \<Rightarrow> NaN)"

definition exponential_cov_f64 ::
  "(fp \<Rightarrow> fp) \<Rightarrow> nparray \<Rightarrow> nparray \<Rightarrow> fp list \<Rightarrow> error + fp list list" where
  "exponential_cov_f64 np_exp x y theta =
     err_bind (py_nth theta 0) (\<lambda>theta0.
     err_bind (py_nth theta 1) (\<lambda>theta1.
     (let c = fp_mul (Fin (- 0.5)) theta1
      in Inr (map (map (\<lambda>s. fp_mul theta0 (np_exp (fp_mul c s))))
                (squared_differences x y)))))"








subsection \<open>What the claims are stated with\<close>







section \<open>Properties of the rounding\<close>

lemma rne_of_int [simp]: "rne (of_int k) = k"
  by (simp add: rne_def)

lemma rne_le_floor_Suc: "rne m \<le> \<lfloor>m\<rfloor> + 1"
  by (simp add: rne_def Let_def)

lemma rne_ge_floor: "\<lfloor>m\<rfloor> \<le> rne m"
  by (simp add: rne_def Let_def)

lemma rne_ge: "of_int N \<le> m \<Longrightarrow> N \<le> rne m"
proof -
  assume "of_int N \<le> m"
  then have "N \<le> \<lfloor>m\<rfloor>" by (simp add: le_floor_iff)
  then show ?thesis using rne_ge_floor[of m] by linarith
qed

lemma rne_le: "m \<le> of_int N \<Longrightarrow> rne m \<le> N"
proof -
  assume a: "m \<le> of_int N"
  show ?thesis
  proof (cases "m = of_int N")
    case True
    then show ?thesis by simp
  next
    case False
    then have "m < of_int N" using a by simp
    then have "\<lfloor>m\<rfloor> < N" by (simp add: floor_less_iff)
    then show ?thesis using rne_le_floor_Suc[of m] by linarith
  qed
qed

lemma rne_error: "\<bar>of_int (rne m) - m\<bar> \<le> 1 / 2"
proof -
  have "of_int \<lfloor>m\<rfloor> \<le> m" "m < of_int \<lfloor>m\<rfloor> + 1" by linarith+
  then show ?thesis by (auto simp: rne_def Let_def abs_le_iff)
qed

lemma rne_below:
  assumes "m < of_int N - 1 / 2"
  shows "rne m \<le> N - 1"
proof -
  have "m < of_int N" using assms by linarith
  then have f: "\<lfloor>m\<rfloor> \<le> N - 1" by (simp add: floor_less_iff)
  show ?thesis
  proof (cases "\<lfloor>m\<rfloor> = N - 1")
    case True
    then have "m - of_int \<lfloor>m\<rfloor> < 1 / 2" using assms by simp
    then show ?thesis using True by (simp add: rne_def Let_def)
  next
    case False
    then have "\<lfloor>m\<rfloor> + 1 \<le> N - 1" using f by linarith
    then show ?thesis using rne_le_floor_Suc[of m] by linarith
  qed
qed

lemma rne_below_scaled:
  assumes P: "0 < P" and m: "of_int P \<le> m"
    and le: "m \<le> of_int N * (1 - 1 / (2 * of_int P))"
  shows "rne m \<le> N - 1"
proof -
  have P': "(0::real) < of_int P" using P by simp
  have "(1::real) \<le> of_int P" using P by (simp add: of_int_1_le_iff)
  then have "1 / (2 * of_int P) \<le> (1::real) / 2" using P' by (simp add: field_simps)
  then have pos: "(0::real) < 1 - 1 / (2 * of_int P)" by linarith
  have "(0::real) < of_int N * (1 - 1 / (2 * of_int P))" using P' m le by linarith
  then have N0: "0 < N" using pos by (simp add: zero_less_mult_iff)
  have "0 < (of_int N :: real) * (1 / (2 * of_int P))" using N0 P' by simp
  then have "of_int N * (1 - 1 / (2 * of_int P)) < (of_int N :: real)"
    by (simp add: algebra_simps)
  then have "(of_int P :: real) < of_int N" using m le by linarith
  then have "P < N" by (simp only: of_int_less_iff)
  then have "P + 1 \<le> N" by linarith
  then have "(of_int (P + 1) :: real) \<le> of_int N" by (simp only: of_int_le_iff)
  then have "(of_int P :: real) < of_int N" by simp
  then have "1 / 2 < (of_int N :: real) / (2 * of_int P)" using P' by (simp add: field_simps)
  then have "m < of_int N - 1 / 2" using le by (simp add: algebra_simps)
  then show ?thesis by (rule rne_below)
qed

lemma bexp_bounds:
  assumes "0 < x"
  shows "2 powi \<lfloor>log 2 x\<rfloor> \<le> x" and "x < 2 powi (\<lfloor>log 2 x\<rfloor> + 1)"
proof -
  have "2 powr (of_int \<lfloor>log 2 x\<rfloor>) \<le> x \<and> x < 2 powr (of_int \<lfloor>log 2 x\<rfloor> + 1)"
    using floor_log_eq_powr_iff[of x 2 "\<lfloor>log 2 x\<rfloor>"] assms by simp
  moreover have "(2::real) powr (of_int \<lfloor>log 2 x\<rfloor> + 1) = 2 powi (\<lfloor>log 2 x\<rfloor> + 1)"
    using powr_real_of_int'[of 2 "\<lfloor>log 2 x\<rfloor> + 1"] by simp
  moreover have "(2::real) powr (of_int \<lfloor>log 2 x\<rfloor>) = 2 powi \<lfloor>log 2 x\<rfloor>"
    using powr_real_of_int'[of 2 "\<lfloor>log 2 x\<rfloor>"] by simp
  ultimately show "2 powi \<lfloor>log 2 x\<rfloor> \<le> x" and "x < 2 powi (\<lfloor>log 2 x\<rfloor> + 1)"
    by simp_all
qed

lemma bexp_eqI:
  assumes "2 powi p \<le> x" and "x < 2 powi (p + 1)"
  shows "\<lfloor>log 2 x\<rfloor> = p"
proof -
  have "0 < x" using assms(1) by (smt (verit) zero_less_power_int)
  moreover have "(2::real) powr (of_int p + 1) = 2 powi (p + 1)"
    using powr_real_of_int'[of 2 "p + 1"] by simp
  moreover have "(2::real) powr (of_int p) = 2 powi p"
    using powr_real_of_int'[of 2 p] by simp
  ultimately have "2 powr (of_int p) \<le> x \<and> x < 2 powr (of_int p + 1)"
    using assms by simp
  with \<open>0 < x\<close> show ?thesis using floor_log_eq_powr_iff[of x 2 p] by simp
qed

lemma bexp_ge:
  assumes "2 powi p \<le> x"
  shows "p \<le> \<lfloor>log 2 x\<rfloor>"
proof (rule ccontr)
  assume "\<not> p \<le> \<lfloor>log 2 x\<rfloor>"
  then have "\<lfloor>log 2 x\<rfloor> + 1 \<le> p" by simp
  then have "(2::real) powi (\<lfloor>log 2 x\<rfloor> + 1) \<le> 2 powi p" by (intro power_int_increasing) simp_all
  moreover have "0 < x" using assms by (smt (verit) zero_less_power_int)
  ultimately show False using bexp_bounds(2)[of x] assms by linarith
qed

lemma bexp_less:
  assumes "0 < x" and "x < 2 powi p"
  shows "\<lfloor>log 2 x\<rfloor> < p"
proof (rule ccontr)
  assume "\<not> \<lfloor>log 2 x\<rfloor> < p"
  then have "(2::real) powi p \<le> 2 powi \<lfloor>log 2 x\<rfloor>" by (intro power_int_increasing) simp_all
  then show False using bexp_bounds(1)[OF assms(1)] assms(2) by linarith
qed

lemma pw52: "(2::real) powi (p - 52) * 2 ^ 52 = 2 powi p"
proof -
  have "(2::real) powi (p - 52 + 52) = 2 powi (p - 52) * 2 powi 52"
    by (rule power_int_add) simp
  then show ?thesis by simp
qed

lemma pw53: "(2::real) powi (p - 52) * 2 ^ 53 = 2 powi (p + 1)"
proof -
  have "(2::real) powi (p - 52 + 53) = 2 powi (p - 52) * 2 powi 53"
    by (rule power_int_add) simp
  moreover have "p - 52 + 53 = p + 1" by simp
  ultimately show ?thesis by simp
qed

lemma round_double_0 [simp]: "round_double 0 = 0"
  by (simp add: round_double_def)

lemma round_double_normal:
  assumes lo: "2 powi p \<le> x" and hi: "x < 2 powi (p + 1)" and p: "- 1022 \<le> p"
  shows "round_double x = of_int (rne (x / 2 powi (p - 52))) * 2 powi (p - 52)"
proof -
  have pos: "0 < x" using lo by (smt (verit) zero_less_power_int)
  have e: "\<lfloor>log 2 \<bar>x\<bar>\<rfloor> = p" using bexp_eqI[OF lo hi] pos by simp
  have "max (p - 52) (- 1074) = p - 52" using p by simp
  then have u: "ulp x = 2 powi (p - 52)" by (simp add: ulp_def e)
  show ?thesis using pos by (simp add: round_double_def u)
qed

lemma round_double_bounds:
  assumes lo: "2 powi p \<le> x" and hi: "x < 2 powi (p + 1)" and p: "- 1022 \<le> p"
  shows "2 powi p \<le> round_double x" and "round_double x \<le> 2 powi (p + 1)"
    and "\<bar>round_double x - x\<bar> \<le> 2 powi (p - 52) / 2"
proof -
  let ?u = "(2::real) powi (p - 52)"
  have u: "0 < ?u" by simp
  have rd: "round_double x = of_int (rne (x / ?u)) * ?u" by (rule round_double_normal[OF assms])
  have "?u * 2 ^ 52 \<le> x" using lo by (simp only: pw52)
  then have "of_int (2 ^ 52) \<le> x / ?u" using u by (simp add: field_simps)
  then have "2 ^ 52 \<le> rne (x / ?u)" by (rule rne_ge)
  then have "(of_int (2 ^ 52) :: real) \<le> of_int (rne (x / ?u))" by (simp only: of_int_le_iff)
  then have a: "of_int (2 ^ 52) * ?u \<le> of_int (rne (x / ?u)) * ?u" using u by (simp only: mult_le_cancel_right_pos)
  have b: "of_int (2 ^ 52) * ?u = 2 powi p" using pw52[of p] by (simp add: mult.commute)
  show "2 powi p \<le> round_double x" using a unfolding b rd .
  have "x \<le> ?u * 2 ^ 53" using hi by (simp only: pw53)
  then have "x / ?u \<le> of_int (2 ^ 53)" using u by (simp add: field_simps)
  then have "rne (x / ?u) \<le> 2 ^ 53" by (rule rne_le)
  then have "(of_int (rne (x / ?u)) :: real) \<le> of_int (2 ^ 53)" by (simp only: of_int_le_iff)
  then have c: "of_int (rne (x / ?u)) * ?u \<le> of_int (2 ^ 53) * ?u" using u by (simp only: mult_le_cancel_right_pos)
  have d: "of_int (2 ^ 53) * ?u = 2 powi (p + 1)" using pw53[of p] by (simp add: mult.commute)
  show "round_double x \<le> 2 powi (p + 1)" using c unfolding d rd .
  have "\<bar>of_int (rne (x / ?u)) - x / ?u\<bar> * ?u \<le> 1 / 2 * ?u"
    using rne_error[of "x / ?u"] u by (simp only: mult_le_cancel_right_pos)
  moreover have "\<bar>of_int (rne (x / ?u)) - x / ?u\<bar> * ?u = \<bar>of_int (rne (x / ?u)) * ?u - x\<bar>"
  proof -
    have "\<bar>of_int (rne (x / ?u)) - x / ?u\<bar> * ?u = \<bar>(of_int (rne (x / ?u)) - x / ?u) * ?u\<bar>"
      using u by (simp add: abs_mult)
    also have "(of_int (rne (x / ?u)) - x / ?u) * ?u = of_int (rne (x / ?u)) * ?u - x"
      using u by (simp add: algebra_simps)
    finally show ?thesis .
  qed
  ultimately show "\<bar>round_double x - x\<bar> \<le> ?u / 2" by (simp add: rd)
qed

lemma ulp_pos [simp]: "0 < ulp x"
  by (simp add: ulp_def)

lemma round_double_nonneg: "0 \<le> x \<Longrightarrow> 0 \<le> round_double x"
proof -
  assume x: "0 \<le> x"
  have "0 \<le> \<bar>x\<bar> / ulp x" by (rule divide_nonneg_pos[OF abs_ge_zero ulp_pos])
  then have "(of_int 0 :: real) \<le> \<bar>x\<bar> / ulp x" by simp
  then have "0 \<le> rne (\<bar>x\<bar> / ulp x)" by (rule rne_ge)
  moreover have "0 \<le> ulp x" by (rule less_imp_le[OF ulp_pos])
  ultimately have "0 \<le> (of_int (rne (\<bar>x\<bar> / ulp x)) :: real) * ulp x"
    by simp
  then show ?thesis using x by (simp add: round_double_def sgn_if)
qed

lemma choices_index_bound:
  assumes n: "0 < n" and k: "k < 2 ^ 53"
  shows "round_double (real k / 2 ^ 53 * round_double (real n)) < real n"
proof (cases "k = 0")
  case True
  then show ?thesis using n by simp
next
  case False
  define E where "E = \<lfloor>log 2 (real n)\<rfloor>"
  define u where "u = (2::real) powi (E - 52)"
  define M where "M = rne (real n / u)"
  define nf where "nf = round_double (real n)"
  define r where "r = real k / 2 ^ 53"
  define x where "x = r * nf"
  define Ex where "Ex = \<lfloor>log 2 x\<rfloor>"
  define ux where "ux = (2::real) powi (Ex - 52)"
  have npos: "0 < real n" using n by simp
  have "(2::real) powi 0 \<le> real n" using n by simp
  then have E0: "0 \<le> E" unfolding E_def by (rule bexp_ge)
  have nlo: "2 powi E \<le> real n" and nhi: "real n < 2 powi (E + 1)"
    unfolding E_def using bexp_bounds[OF npos] by simp_all
  have E1022: "- 1022 \<le> E" using E0 by simp
  have u0: "0 < u" by (simp add: u_def)
  have nfM: "nf = of_int M * u"
    unfolding nf_def M_def u_def by (rule round_double_normal[OF nlo nhi E1022])
  have nflo: "2 powi E \<le> nf" and nfhi: "nf \<le> 2 powi (E + 1)"
    and nferr: "\<bar>nf - real n\<bar> \<le> u / 2"
    unfolding nf_def u_def using round_double_bounds[OF nlo nhi E1022] by simp_all
  have one: "(1::real) \<le> 2 powi E" using E0 by (simp add: one_le_power_int)
  have nfpos: "0 < nf" using nflo one by linarith
  have k1: "1 \<le> real k" using False by simp
  have "k \<le> 2 ^ 53 - 1" using k by simp
  then have "real k \<le> real (2 ^ 53 - 1)" by (simp only: of_nat_le_iff)
  then have k2: "real k \<le> 2 ^ 53 - 1" by simp
  have rlo: "1 / 2 ^ 53 \<le> r" unfolding r_def using k1 by (simp add: field_simps)
  have rhi: "r \<le> 1 - 1 / 2 ^ 53" unfolding r_def using k2 by (simp add: field_simps)
  have r1: "r < 1" using rhi by simp
  have r0: "0 < r" using rlo by (simp add: r_def False)
  have xpos: "0 < x" unfolding x_def using r0 nfpos by simp
  have xle: "x \<le> nf * (1 - 1 / 2 ^ 53)"
    unfolding x_def using mult_right_mono[OF rhi, of nf] nfpos by (simp add: mult.commute)
  have "x < nf" unfolding x_def using r1 nfpos by simp
  then have xhiE: "x < 2 powi (E + 1)" using nfhi by linarith
  have "1 / 2 ^ 53 * 1 \<le> r * nf"
    by (rule mult_mono[OF rlo]) (use one nflo r0 in simp_all)
  then have "(2::real) powi (- 53) \<le> x" unfolding x_def by (simp add: power_int_minus field_simps)
  then have Exlo: "- 53 \<le> Ex" unfolding Ex_def by (rule bexp_ge)
  have "Ex < E + 1" unfolding Ex_def by (rule bexp_less[OF xpos xhiE])
  then have ExE: "Ex \<le> E" by simp
  have xlo: "2 powi Ex \<le> x" and xhi: "x < 2 powi (Ex + 1)"
    unfolding Ex_def using bexp_bounds[OF xpos] by simp_all
  have Ex1022: "- 1022 \<le> Ex" using Exlo by simp
  have ux0: "0 < ux" by (simp add: ux_def)
  have rdx: "round_double x = of_int (rne (x / ux)) * ux"
    unfolding ux_def by (rule round_double_normal[OF xlo xhi Ex1022])
  have goal: "round_double x < real n"
  proof (cases "Ex = E")
    case True
    then have uxu: "ux = u" by (simp add: ux_def u_def)
    have "u * 2 ^ 52 \<le> x" using xlo True unfolding u_def by (simp only: pw52)
    then have m1: "of_int (2 ^ 52) \<le> x / u" using u0 by (simp add: field_simps)
    have "x / u \<le> of_int M * (1 - 1 / 2 ^ 53)"
      using xle u0 unfolding nfM by (simp add: field_simps)
    then have m2: "x / u \<le> of_int M * (1 - 1 / (2 * of_int (2 ^ 52)))" by simp
    have "rne (x / u) \<le> M - 1"
      by (rule rne_below_scaled[OF _ m1 m2]) simp
    then have "(of_int (rne (x / u)) :: real) \<le> of_int (M - 1)" by (simp only: of_int_le_iff)
    then have "of_int (rne (x / u)) * u \<le> of_int (M - 1) * u"
      using u0 by (simp only: mult_le_cancel_right_pos)
    then have "round_double x \<le> nf - u" unfolding rdx uxu nfM by (simp add: algebra_simps)
    then show ?thesis using nferr u0 by linarith
  next
    case False
    then have lt: "Ex + 1 \<le> E" using ExE by simp
    have b1: "round_double x \<le> 2 powi (Ex + 1)"
      using round_double_bounds(2)[OF xlo xhi Ex1022] .
    have b2: "(2::real) powi (Ex + 1) \<le> 2 powi E"
      using lt by (intro power_int_increasing) simp_all
    show ?thesis
    proof (cases "2 powi E < real n")
      case True
      then show ?thesis using b1 b2 by linarith
    next
      case False
      then have nE: "real n = 2 powi E" using nlo by simp
      show ?thesis
      proof (cases "Ex + 1 = E")
        case False
        then have "Ex + 1 < E" using lt by simp
        then have "(2::real) powi (Ex + 1) < 2 powi E"
          by (intro power_int_strict_increasing) simp_all
        then show ?thesis using b1 nE by linarith
      next
        case True
        have nux: "real n = ux * 2 ^ 53" unfolding nE ux_def True[symmetric] by (simp only: pw53)
        have "real n / u = of_int (2 ^ 52)"
          unfolding nE u_def using pw52[of E] by (simp add: field_simps)
        then have "M = 2 ^ 52" unfolding M_def by (simp only: rne_of_int)
        then have "nf = real n" unfolding nfM nE u_def using pw52[of E] by (simp add: mult.commute)
        then have "x \<le> ux * 2 ^ 53 * (1 - 1 / 2 ^ 53)" using xle nux by simp
        then have "x / ux \<le> 2 ^ 53 * (1 - 1 / 2 ^ 53)" using ux0 by (simp add: field_simps)
        then have "x / ux \<le> of_int (2 ^ 53 - 1)" by simp
        then have "rne (x / ux) \<le> 2 ^ 53 - 1" by (rule rne_le)
        then have "(of_int (rne (x / ux)) :: real) \<le> of_int (2 ^ 53 - 1)"
          by (simp only: of_int_le_iff)
        then have "of_int (rne (x / ux)) * ux \<le> of_int (2 ^ 53 - 1) * ux"
          using ux0 by (simp only: mult_le_cancel_right_pos)
        then have "round_double x \<le> ux * 2 ^ 53 - ux" unfolding rdx by (simp add: algebra_simps)
        then show ?thesis using ux0 nux by linarith
      qed
    qed
  qed
  then show ?thesis unfolding x_def r_def nf_def .
qed

subsection \<open>Doubles that are their own rounding; overflow\<close>

lemma ulp_minus [simp]: "ulp (- x) = ulp x"
  by (simp add: ulp_def)

lemma round_double_minus: "round_double (- x) = - round_double x"
  by (simp add: round_double_def sgn_minus)

lemma rnd_minus_sq: "fp_mul (rnd (- x)) (rnd (- x)) = fp_mul (rnd x) (rnd x)"
proof (cases "x = 0")
  case True
  then show ?thesis by simp
next
  case False
  show ?thesis
  proof (cases "2 ^ 1024 \<le> \<bar>round_double x\<bar>")
    case True
    then show ?thesis
      using False by (auto simp: rnd_def Let_def round_double_minus fp_mul_def fp_sgn_def)
  next
    case ov: False
    then show ?thesis
      by (simp add: rnd_def Let_def round_double_minus fp_mul_def)
  qed
qed

lemma fp_sub_sq: "fp_mul (fp_sub a b) (fp_sub a b) = fp_mul (fp_sub b a) (fp_sub b a)"
proof (cases a; cases b)
  fix x y assume "a = Fin x" "b = Fin y"
  then show ?thesis using rnd_minus_sq[of "x - y"] by (simp add: fp_sub_def)
qed (simp_all add: fp_sub_def fp_mul_def fp_sgn_def)

lemma int64_sub_sq: "(p - q) * (p - q) = (q - p) * (q - p)" for p q :: "64 word"
  by (simp add: algebra_simps)

lemma round_double_exact:
  assumes m: "\<bar>m\<bar> < 2 ^ 53" and e: "- 1074 \<le> e"
  shows "round_double (of_int m * 2 powi e) = of_int m * 2 powi e"
proof (cases "m = 0")
  case True
  then show ?thesis by simp
next
  case False
  define x where "x = (of_int m :: real) * 2 powi e"
  define q where "q = max (\<lfloor>log 2 \<bar>x\<bar>\<rfloor> - 52) (- 1074)"
  have ax: "\<bar>x\<bar> = of_int \<bar>m\<bar> * 2 powi e" by (simp add: x_def abs_mult)
  have xpos: "0 < \<bar>x\<bar>" using False by (simp add: x_def)
  have "(of_int \<bar>m\<bar> :: real) < of_int (2 ^ 53)" using m by (simp only: of_int_less_iff)
  then have "of_int \<bar>m\<bar> * 2 powi e < (2 ^ 53 :: real) * 2 powi e" by simp
  also have "(2 ^ 53 :: real) * 2 powi e = 2 powi (e + 53)"
    using power_int_add[of "2::real" e 53] by (simp add: mult.commute)
  finally have "\<bar>x\<bar> < 2 powi (e + 53)" unfolding ax .
  then have "\<lfloor>log 2 \<bar>x\<bar>\<rfloor> < e + 53" by (rule bexp_less[OF xpos])
  then have qe: "q \<le> e" unfolding q_def using e by simp
  have u: "ulp x = 2 powi q" by (simp add: ulp_def q_def)
  have "(2::real) powi e = 2 powi (e - q) * 2 powi q"
    using power_int_add[of "2::real" "e - q" q] by simp
  moreover have "(2::real) powi (e - q) = 2 ^ nat (e - q)"
    using qe by (simp add: power_int_def)
  ultimately have "\<bar>x\<bar> / ulp x = of_int (\<bar>m\<bar> * 2 ^ nat (e - q))"
    unfolding ax u by simp
  then have "rne (\<bar>x\<bar> / ulp x) = \<bar>m\<bar> * 2 ^ nat (e - q)" by (simp only: rne_of_int)
  then have "of_int (rne (\<bar>x\<bar> / ulp x)) * ulp x = \<bar>x\<bar> / ulp x * ulp x"
    using \<open>\<bar>x\<bar> / ulp x = of_int (\<bar>m\<bar> * 2 ^ nat (e - q))\<close> by simp
  also have "\<dots> = \<bar>x\<bar>"
  proof -
    have "ulp x \<noteq> 0" using ulp_pos[of x] by linarith
    then show ?thesis by simp
  qed
  finally have r: "of_int (rne (\<bar>x\<bar> / ulp x)) * ulp x = \<bar>x\<bar>" .
  have "round_double x = sgn x * (of_int (rne (\<bar>x\<bar> / ulp x)) * ulp x)"
    using xpos by (simp add: round_double_def)
  also have "\<dots> = x" unfolding r by (simp add: sgn_if)
  finally show ?thesis unfolding x_def .
qed

lemma round_double_ge_pow:
  assumes "2 powi p \<le> x" and "- 1022 \<le> p"
  shows "2 powi p \<le> round_double x"
proof -
  have xpos: "0 < x" using assms(1) by (smt (verit) zero_less_power_int)
  define q where "q = \<lfloor>log 2 x\<rfloor>"
  have pq: "p \<le> q" unfolding q_def by (rule bexp_ge[OF assms(1)])
  have lo: "2 powi q \<le> x" and hi: "x < 2 powi (q + 1)"
    unfolding q_def using bexp_bounds[OF xpos] by simp_all
  have "- 1022 \<le> q" using pq assms(2) by simp
  then have "2 powi q \<le> round_double x" by (rule round_double_bounds(1)[OF lo hi])
  moreover have "(2::real) powi p \<le> 2 powi q" using pq by (intro power_int_increasing) simp_all
  ultimately show ?thesis by linarith
qed

lemma rnd_exact:
  assumes "\<bar>m\<bar> < 2 ^ 53" and "- 1074 \<le> e" and "\<bar>of_int m * 2 powi e\<bar> < (2::real) ^ 1024"
  shows "rnd (of_int m * 2 powi e) = Fin (of_int m * 2 powi e)"
  using assms(3) by (simp add: rnd_def Let_def round_double_exact[OF assms(1,2)])

lemma rnd_small_int:
  assumes "\<bar>m\<bar> < 2 ^ 53"
  shows "rnd (of_int m) = Fin (of_int m)"
proof -
  have "\<bar>of_int m :: real\<bar> < of_int (2 ^ 53)" using assms by (simp only: of_int_abs[symmetric] of_int_less_iff)
  then have "\<bar>of_int m :: real\<bar> < 2 ^ 53" by simp
  moreover have "(2::real) ^ 53 \<le> 2 ^ 1024" by (rule power_increasing) simp_all
  ultimately have "\<bar>of_int m * 2 powi 0 :: real\<bar> < 2 ^ 1024" by simp
  then show ?thesis using rnd_exact[OF assms, of 0] by simp
qed

lemma rnd_not_NaN [simp]: "rnd x \<noteq> NaN"
  by (simp add: rnd_def Let_def)

lemma exp_overflow:
  assumes "1024 \<le> x"
  shows "rnd (exp x) = PInf"
proof -
  have "(2::real) \<le> exp 1" using exp_ge_add_one_self[of 1] by simp
  then have "(2::real) ^ 1024 \<le> exp 1 ^ 1024" by (rule power_mono) simp
  also have "exp (1::real) ^ 1024 = exp (of_nat 1024 * 1)" by (rule exp_of_nat_mult[symmetric])
  also have "\<dots> \<le> exp x" using assms by simp
  finally have "(2::real) powi 1024 \<le> exp x" by simp
  then have "(2::real) powi 1024 \<le> round_double (exp x)" by (rule round_double_ge_pow) simp
  then have "(2::real) ^ 1024 \<le> \<bar>round_double (exp x)\<bar>" by simp
  then show ?thesis by (simp add: rnd_def Let_def)
qed

lemma fp_sub_Fin: "fp_sub (Fin x) (Fin y) = rnd (x - y)"
  by (simp add: fp_sub_def)

lemma fp_mul_Fin: "fp_mul (Fin x) (Fin y) = rnd (x * y)"
  by (simp add: fp_mul_def)

lemma fp_mul_zero_PInf: "fp_mul (Fin 0) PInf = NaN"
  by (simp add: fp_mul_def fp_sgn_def)

lemma fp_exp_Fin: "fp_exp (Fin x) = rnd (exp x)"
  by (simp add: fp_exp_def)

lemma fp_mul_one_PInf: "fp_mul (Fin 1) PInf = PInf"
  by (simp add: fp_mul_def fp_sgn_def)

lemma rnd_half: "rnd (- (1 / 2)) = Fin (- (1 / 2))" "rnd (1 / 2) = Fin (1 / 2)"
proof -
  have b: "(1::real) \<le> 2 ^ 1024" by (rule one_le_power) simp
  have "\<bar>of_int (- 1) * 2 powi (- 1) :: real\<bar> < 2 ^ 1024" using b by (simp add: power_int_minus)
  then have "rnd (of_int (- 1) * 2 powi (- 1)) = Fin (of_int (- 1) * 2 powi (- 1))"
    by (intro rnd_exact) simp_all
  then show "rnd (- (1 / 2)) = Fin (- (1 / 2))" by (simp add: power_int_minus)
  have "\<bar>of_int 1 * 2 powi (- 1) :: real\<bar> < 2 ^ 1024" using b by (simp add: power_int_minus)
  then have "rnd (of_int 1 * 2 powi (- 1)) = Fin (of_int 1 * 2 powi (- 1))"
    by (intro rnd_exact) simp_all
  then show "rnd (1 / 2) = Fin (1 / 2)" by (simp add: power_int_minus)
qed

section \<open>Properties of the grid generator\<close>

lemma product_Nil: "itertools_product [] = [[]]"
  by (simp add: itertools_product_def)

lemma product_snoc:
  "itertools_product (pools @ [p]) =
     concat (map (\<lambda>x. map (\<lambda>y. x @ [y]) p) (itertools_product pools))"
  by (simp add: itertools_product_def)

lemma length_concat_const:
  "(\<And>x. x \<in> set xs \<Longrightarrow> length (f x) = c) \<Longrightarrow> length (concat (map f xs)) = length xs * c"
  by (induction xs) auto

lemma length_product: "length (itertools_product pools) = prod_list (map length pools)"
proof (induction pools rule: rev_induct)
  case Nil
  show ?case by (simp add: product_Nil)
next
  case (snoc p pools)
  have "length (itertools_product (pools @ [p])) = length (itertools_product pools) * length p"
    unfolding product_snoc by (rule length_concat_const) simp
  with snoc show ?case by simp
qed

lemma nth_concat_const:
  assumes "\<And>x. x \<in> set xs \<Longrightarrow> length (f x) = c" and "i < length xs * c"
  shows "concat (map f xs) ! i = f (xs ! (i div c)) ! (i mod c)"
  using assms
proof (induction xs arbitrary: i)
  case Nil
  then show ?case by simp
next
  case (Cons x xs)
  have c: "0 < c" using Cons.prems(2) by (cases c) auto
  show ?case
  proof (cases "i < c")
    case True
    then show ?thesis using Cons.prems(1)[of x] by (simp add: nth_append)
  next
    case False
    then have ic: "c \<le> i" by simp
    have lt: "i - c < length xs * c" using Cons.prems(2) ic by simp
    have ih: "concat (map f xs) ! (i - c) = f (xs ! ((i - c) div c)) ! ((i - c) mod c)"
      by (rule Cons.IH) (use Cons.prems(1) lt in auto)
    have d: "i div c = Suc ((i - c) div c)" using ic c
      by (simp add: le_div_geq)
    have m: "i mod c = (i - c) mod c" using ic by (simp add: le_mod_geq)
    show ?thesis using False Cons.prems(1)[of x] ih d m by (simp add: nth_append)
  qed
qed

lemma nth_product_snoc:
  assumes "i < length (itertools_product pools) * length p"
  shows "itertools_product (pools @ [p]) ! i =
           itertools_product pools ! (i div length p) @ [p ! (i mod length p)]"
proof -
  have p: "0 < length p" using assms by (cases p) auto
  have "itertools_product (pools @ [p]) ! i =
          map (\<lambda>y. (itertools_product pools ! (i div length p)) @ [y]) p ! (i mod length p)"
    unfolding product_snoc by (rule nth_concat_const) (use assms in auto)
  then show ?thesis using p by simp
qed

lemma length_nth_product:
  "i < length (itertools_product pools) \<Longrightarrow> length (itertools_product pools ! i) = length pools"
proof (induction pools arbitrary: i rule: rev_induct)
  case Nil
  then show ?case by (simp add: product_Nil)
next
  case (snoc p pools)
  have lt: "i < length (itertools_product pools) * length p"
    using snoc.prems by (simp add: length_product)
  have p: "0 < length p" using lt by (cases p) auto
  have "i div length p < length (itertools_product pools)"
    using lt p by (simp add: less_mult_imp_div_less)
  then show ?case using snoc.IH nth_product_snoc[OF lt] by simp
qed

lemma nth_product:
  assumes "i < length (itertools_product pools)" and "j < length pools"
  shows "itertools_product pools ! i ! j = pools ! j ! odometer pools i j"
  using assms
proof (induction pools arbitrary: i j rule: rev_induct)
  case Nil
  then show ?case by simp
next
  case (snoc p pools)
  have lt: "i < length (itertools_product pools) * length p"
    using snoc.prems(1) by (simp add: length_product)
  have p: "0 < length p" using lt by (cases p) auto
  have dl: "i div length p < length (itertools_product pools)"
    using lt p by (simp add: less_mult_imp_div_less)
  have len: "length (itertools_product pools ! (i div length p)) = length pools"
    by (rule length_nth_product[OF dl])
  show ?case
  proof (cases "j < length pools")
    case True
    have "itertools_product (pools @ [p]) ! i ! j = itertools_product pools ! (i div length p) ! j"
      using nth_product_snoc[OF lt] True len by (simp add: nth_append)
    also have "\<dots> = pools ! j ! odometer pools (i div length p) j"
      by (rule snoc.IH[OF dl True])
    also have "odometer pools (i div length p) j = odometer (pools @ [p]) i j"
      using True by (simp add: odometer_def nth_append div_mult2_eq mult.commute)
    finally show ?thesis using True by (simp add: nth_append)
  next
    case False
    then have j: "j = length pools" using snoc.prems(2) by simp
    show ?thesis using nth_product_snoc[OF lt] len j by (simp add: nth_append odometer_def)
  qed
qed

lemma in_set_product:
  "v \<in> set (itertools_product pools) \<longleftrightarrow> list_all2 (\<lambda>x p. x \<in> set p) v pools"
proof (induction pools arbitrary: v rule: rev_induct)
  case Nil
  then show ?case by (auto simp: product_Nil)
next
  case (snoc p pools)
  show ?case
  proof
    assume "v \<in> set (itertools_product (pools @ [p]))"
    then obtain x y where "x \<in> set (itertools_product pools)" "y \<in> set p" "v = x @ [y]"
      by (auto simp: product_snoc)
    then show "list_all2 (\<lambda>x p. x \<in> set p) v (pools @ [p])"
      using snoc.IH by (simp add: list_all2_appendI)
  next
    assume a: "list_all2 (\<lambda>x p. x \<in> set p) v (pools @ [p])"
    then obtain x ys where v: "v = x @ ys" and x: "list_all2 (\<lambda>x p. x \<in> set p) x pools"
      and ys: "list_all2 (\<lambda>x p. x \<in> set p) ys [p]"
      by (auto simp: list_all2_append2)
    from ys obtain y where "ys = [y]" "y \<in> set p" by (auto simp: list_all2_Cons2)
    then show "v \<in> set (itertools_product (pools @ [p]))"
      using v x snoc.IH by (auto simp: product_snoc)
  qed
qed

lemma update_fresh: "k \<notin> fst ` set al \<Longrightarrow> AList.update k v al = al @ [(k, v)]"
  by (induction al) auto

lemma foldl_update_distinct:
  "distinct (map fst (d @ kvs)) \<Longrightarrow> foldl (\<lambda>d (k, v). AList.update k v d) d kvs = d @ kvs"
proof (induction kvs arbitrary: d)
  case Nil
  then show ?case by simp
next
  case (Cons kv kvs)
  obtain k v where kv: "kv = (k, v)" by (cases kv)
  have fresh: "k \<notin> fst ` set d" using Cons.prems kv by auto
  have "distinct (map fst ((d @ [(k, v)]) @ kvs))" using Cons.prems kv by simp
  from Cons.IH[OF this] show ?case using fresh kv by (simp add: update_fresh)
qed

lemma dict_distinct: "distinct (map fst kvs) \<Longrightarrow> dict kvs = kvs"
  using foldl_update_distinct[of "[]" kvs] by (simp add: dict_def)

lemma get_param_grid_Inr:
  "params \<noteq> [] \<Longrightarrow>
   get_param_grid params =
     Inr (map (\<lambda>v. dict (zip (map fst params) v)) (itertools_product (map snd params)))"
  by (cases params) (simp_all add: get_param_grid_def)

lemma length_get_param_grid:
  "params \<noteq> [] \<Longrightarrow> get_param_grid params = Inr es \<Longrightarrow>
   length es = prod_list (map (\<lambda>(k, vs). length vs) params)"
  by (auto simp: get_param_grid_Inr length_product comp_def case_prod_unfold)

lemma prod_list_pos:
  "(\<And>x. x \<in> set xs \<Longrightarrow> 0 < x) \<Longrightarrow> 0 < prod_list (xs::nat list)"
  by (induction xs) auto

lemma prod_list_zero:
  "(0::nat) \<in> set xs \<Longrightarrow> prod_list xs = 0"
  by (induction xs) auto

lemma grid_nonempty:
  assumes "params \<noteq> []" and "\<forall>(k, vs) \<in> set params. vs \<noteq> []"
    and "get_param_grid params = Inr grid"
  shows "grid \<noteq> []"
proof -
  have "0 < prod_list (map (\<lambda>(k, vs). length vs) params)"
    by (rule prod_list_pos) (use assms(2) in auto)
  then show ?thesis using length_get_param_grid[OF assms(1,3)] by auto
qed

subsection \<open>Drawing from the grid\<close>

lemma py_nth_draw:
  assumes "xs \<noteq> []" and "k < 2 ^ 53"
  shows "py_nth xs \<lfloor>round_double (real k / 2 ^ 53 * py_float (length xs))\<rfloor> =
           Inr (xs ! nat \<lfloor>round_double (real k / 2 ^ 53 * py_float (length xs))\<rfloor>)"
    and "nat \<lfloor>round_double (real k / 2 ^ 53 * py_float (length xs))\<rfloor> < length xs"
proof -
  let ?d = "round_double (real k / 2 ^ 53 * py_float (length xs))"
  have n: "0 < length xs" using assms(1) by simp
  have "0 \<le> py_float (length xs)" unfolding py_float_def by (rule round_double_nonneg) simp
  then have "0 \<le> real k / 2 ^ 53 * py_float (length xs)" by simp
  then have "0 \<le> ?d" by (rule round_double_nonneg)
  then have lo: "0 \<le> \<lfloor>?d\<rfloor>" by simp
  have "?d < real (length xs)"
    unfolding py_float_def by (rule choices_index_bound[OF n assms(2)])
  then have "?d < of_int (int (length xs))" by simp
  then have hi: "\<lfloor>?d\<rfloor> < int (length xs)" by (simp only: floor_less_iff)
  show "py_nth xs \<lfloor>?d\<rfloor> = Inr (xs ! nat \<lfloor>?d\<rfloor>)"
    using lo hi by (simp add: py_nth_def Let_def)
  show "nat \<lfloor>?d\<rfloor> < length xs"
    by (simp only: nat_less_iff[OF lo] hi)
qed

lemma choices_loop_draws:
  assumes "population \<noteq> []" and "rng_ok g"
  shows "choices_loop population (py_float (length population)) k g =
           (Inr (map (\<lambda>i. population !
                    nat \<lfloor>round_double (g i * py_float (length population))\<rfloor>) [0..<k]),
            \<lambda>i. g (i + k))"
  using assms(2)
proof (induction k arbitrary: g)
  case 0
  then show ?case by simp
next
  case (Suc k)
  let ?n = "py_float (length population)"
  let ?g1 = "\<lambda>i. g (Suc i)"
  obtain k0 where k0: "k0 < 2 ^ 53" "g 0 = real k0 / 2 ^ 53"
    using Suc.prems unfolding rng_ok_def by blast
  have ok1: "rng_ok ?g1" using Suc.prems by (simp add: rng_ok_def)
  have ih: "choices_loop population ?n k ?g1 =
      (Inr (map (\<lambda>i. population ! nat \<lfloor>round_double (g (Suc i) * ?n)\<rfloor>) [0..<k]),
       \<lambda>i. g (Suc (i + k)))"
    using Suc.IH[OF ok1] by simp
  have m: "map (\<lambda>i. population ! nat \<lfloor>round_double (g i * ?n)\<rfloor>) [0..<Suc k] =
      population ! nat \<lfloor>round_double (g 0 * ?n)\<rfloor> #
      map (\<lambda>i. population ! nat \<lfloor>round_double (g (Suc i) * ?n)\<rfloor>) [0..<k]"
    by (simp only: upt_conv_Cons[of 0 "Suc k"] map_Suc_upt[symmetric] list.map map_map comp_def)
  have d: "py_nth population \<lfloor>round_double (g 0 * ?n)\<rfloor> =
      Inr (population ! nat \<lfloor>round_double (g 0 * ?n)\<rfloor>)"
    unfolding k0(2) by (rule py_nth_draw(1)[OF assms(1) k0(1)])
  show ?case
    unfolding m
    by (simp add: random_random_def d ih del: upt_Suc)
qed

lemma get_param_grid_nth:
  assumes ne: "params \<noteq> []" and d: "distinct (map fst params)"
    and g: "get_param_grid params = Inr es" and i: "i < length es"
  shows "es ! i =
    map (\<lambda>j. (fst (params ! j), snd (params ! j) ! odometer (map snd params) i j))
      [0..<length params]"
proof -
  let ?P = "itertools_product (map snd params)"
  have es: "es = map (\<lambda>v. dict (zip (map fst params) v)) ?P"
    using g ne by (simp add: get_param_grid_Inr)
  have iP: "i < length ?P" using i es by simp
  have len: "length (?P ! i) = length params"
    using length_nth_product[OF iP] by simp
  have dz: "distinct (map fst (zip (map fst params) (?P ! i)))"
    using d len by (simp add: map_fst_zip)
  have "es ! i = zip (map fst params) (?P ! i)"
    using es iP dict_distinct[OF dz] by simp
  also have "\<dots> = map (\<lambda>j. (fst (params ! j), snd (params ! j) ! odometer (map snd params) i j))
      [0..<length params]"
  proof (rule nth_equalityI)
    show "length (zip (map fst params) (?P ! i)) =
      length (map (\<lambda>j. (fst (params ! j), snd (params ! j) ! odometer (map snd params) i j))
        [0..<length params])"
      using len by simp
  next
    fix j assume "j < length (zip (map fst params) (?P ! i))"
    then have j: "j < length params" using len by simp
    have "?P ! i ! j = map snd params ! j ! odometer (map snd params) i j"
      by (rule nth_product[OF iP]) (use j in simp)
    then show "zip (map fst params) (?P ! i) ! j =
      map (\<lambda>j. (fst (params ! j), snd (params ! j) ! odometer (map snd params) i j))
        [0..<length params] ! j"
      using j len by simp
  qed
  finally show ?thesis .
qed

lemma get_param_grid_set:
  assumes ne: "params \<noteq> []" and d: "distinct (map fst params)"
    and g: "get_param_grid params = Inr es"
  shows "e \<in> set es \<longleftrightarrow>
    map fst e = map fst params \<and> list_all2 (\<lambda>x vs. x \<in> set vs) (map snd e) (map snd params)"
proof -
  let ?P = "itertools_product (map snd params)"
  have es: "es = map (\<lambda>v. dict (zip (map fst params) v)) ?P"
    using g ne by (simp add: get_param_grid_Inr)
  have dz: "dict (zip (map fst params) v) = zip (map fst params) v"
    if "v \<in> set ?P" for v
  proof -
    have "length v = length params"
      using that list_all2_lengthD[of _ v "map snd params"] by (simp add: in_set_product)
    then show ?thesis using d by (intro dict_distinct) (simp add: map_fst_zip)
  qed
  show ?thesis
  proof
    assume "e \<in> set es"
    then obtain v where v: "v \<in> set ?P" and e: "e = zip (map fst params) v"
      using es dz by auto
    have l: "length v = length params"
      using v list_all2_lengthD[of _ v "map snd params"] by (simp add: in_set_product)
    show "map fst e = map fst params \<and>
      list_all2 (\<lambda>x vs. x \<in> set vs) (map snd e) (map snd params)"
      using v e l by (simp add: in_set_product map_fst_zip map_snd_zip)
  next
    assume a: "map fst e = map fst params \<and>
      list_all2 (\<lambda>x vs. x \<in> set vs) (map snd e) (map snd params)"
    then have v: "map snd e \<in> set ?P" by (simp add: in_set_product)
    have "e = zip (map fst params) (map snd e)" using a by (metis zip_map_fst_snd)
    then have "e = dict (zip (map fst params) (map snd e))" using dz[OF v] by simp
    then show "e \<in> set es" using v es by auto
  qed
qed

subsection \<open>The claims on the grid generator\<close>

text \<open>
  Claim C3, as amended. For every parameter space that has at least one parameter and in
  which every value list is non-empty, \<open>get_param_grid\<close> returns a list whose length is
  the product of the lengths of the value lists. (On the empty dictionary the unpacking
  \<open>keys, values = zip(*params.items())\<close> raises \<open>ValueError\<close>, which is why the space must
  hold a parameter.)
\<close>

theorem get_param_grid_length:
  assumes "params \<noteq> []" and "\<forall>(k, vs) \<in> set params. vs \<noteq> []"
  shows "\<exists>es. get_param_grid params = Inr es \<and>
              length es = prod_list (map (\<lambda>(k, vs). length vs) params)"
  using assms(1) length_get_param_grid[OF assms(1)] by (simp add: get_param_grid_Inr)

theorem get_param_grid_length_witness:
  "\<exists>es. get_param_grid [(''learning_rate'', [1/10, 1/100, 1/1000, 1/10000 :: real]),
                          (''batch_size'', [10, 20, 50, 100]), (''momentum'', [9/10])] = Inr es
        \<and> length es = 16"
  using get_param_grid_length[of "[(''learning_rate'', [1/10, 1/100, 1/1000, 1/10000 :: real]),
                          (''batch_size'', [10, 20, 50, 100]), (''momentum'', [9/10])]"]
  by (simp add: eval_nat_numeral)

text \<open>
  The claim C3 as stated fails on the empty dictionary: every value list of it is
  non-empty, the product of the lengths is 1, and the code raises instead of returning a
  list.
\<close>

theorem get_param_grid_length_empty_space:
  "get_param_grid ([] :: (string, int) param_space) = Inl ValueError"
  by (simp add: get_param_grid_def)

text \<open>
  Claim C4, as amended. For every parameter space with at least one parameter and
  non-empty value lists, \<open>get_param_grid\<close> returns the combinations of the Cartesian
  product in odometer order: experiment number \<open>i\<close> gives parameter number \<open>j\<close> the value
  at digit \<open>j\<close> of \<open>i\<close> in the mixed-radix system of the value lists, where the last declared
  parameter is the least significant digit and so varies fastest. The experiments are
  exactly the dictionaries over the declared keys, in their order, that give each
  parameter one of its candidates. The result is a function of the space alone (keys in
  insertion order), so two calls agree. For \<open>{"a": [1,2], "b": [10,20]}\<close> the result is
  \<open>[{a:1,b:10}, {a:1,b:20}, {a:2,b:10}, {a:2,b:20}]\<close>.
\<close>

theorem get_param_grid_odometer:
  assumes "params \<noteq> []" and "distinct (map fst params)"
    and "\<forall>(k, vs) \<in> set params. vs \<noteq> []"
  shows "\<exists>es. get_param_grid params = Inr es \<and>
      length es = prod_list (map (\<lambda>(k, vs). length vs) params) \<and>
      (\<forall>i<length es. es ! i =
         map (\<lambda>j. (fst (params ! j), snd (params ! j) ! odometer (map snd params) i j))
           [0..<length params]) \<and>
      (\<forall>e. e \<in> set es \<longleftrightarrow>
         map fst e = map fst params \<and>
         list_all2 (\<lambda>x vs. x \<in> set vs) (map snd e) (map snd params)) \<and>
      get_param_grid [(''a'', [1, 2 :: int]), (''b'', [10, 20])] =
        Inr [[(''a'', 1), (''b'', 10)], [(''a'', 1), (''b'', 20)],
             [(''a'', 2), (''b'', 10)], [(''a'', 2), (''b'', 20)]]"
proof -
  obtain es where g: "get_param_grid params = Inr es"
    using assms(1) by (simp add: get_param_grid_Inr)
  have "get_param_grid [(''a'', [1, 2 :: int]), (''b'', [10, 20])] =
        Inr [[(''a'', 1), (''b'', 10)], [(''a'', 1), (''b'', 20)],
             [(''a'', 2), (''b'', 10)], [(''a'', 2), (''b'', 20)]]"
    by (simp add: get_param_grid_def itertools_product_def dict_def)
  then show ?thesis
    using g length_get_param_grid[OF assms(1) g] get_param_grid_nth[OF assms(1,2) g]
      get_param_grid_set[OF assms(1,2) g]
    by blast
qed

theorem get_param_grid_odometer_witness:
  "\<exists>es. get_param_grid [(''lr'', [1, 2 :: int]), (''bs'', [10, 20, 50])] = Inr es \<and>
      length es = 6 \<and>
      es ! 4 = [(''lr'', 2), (''bs'', 20)] \<and>
      [(''lr'', 1), (''bs'', 50)] \<in> set es"
proof -
  let ?p = "[(''lr'', [1, 2 :: int]), (''bs'', [10, 20, 50])]"
  have h: "?p \<noteq> []" "distinct (map fst ?p)" "\<forall>(k, vs) \<in> set ?p. vs \<noteq> []"
    by simp_all
  from get_param_grid_odometer[OF h] obtain es where
    g: "get_param_grid ?p = Inr es" and
    l: "length es = prod_list (map (\<lambda>(k, vs). length vs) ?p)" and
    n: "\<forall>i<length es. es ! i =
         map (\<lambda>j. (fst (?p ! j), snd (?p ! j) ! odometer (map snd ?p) i j)) [0..<length ?p]" and
    s: "\<forall>e. e \<in> set es \<longleftrightarrow>
         map fst e = map fst ?p \<and> list_all2 (\<lambda>x vs. x \<in> set vs) (map snd e) (map snd ?p)"
    by blast
  have l6: "length es = 6" using l by (simp add: eval_nat_numeral)
  have ev: "map (\<lambda>j. (fst (?p ! j), snd (?p ! j) ! odometer (map snd ?p) 4 j)) [0..<length ?p] =
      [(''lr'', 2), (''bs'', 20)]"
    by code_simp
  have "es ! 4 = map (\<lambda>j. (fst (?p ! j), snd (?p ! j) ! odometer (map snd ?p) 4 j)) [0..<length ?p]"
    using n l6 by (simp del: upt_Suc)
  then have e4: "es ! 4 = [(''lr'', 2), (''bs'', 20)]"
    by (simp only: ev)
  have m: "[(''lr'', 1), (''bs'', 50)] \<in> set es" using s by simp
  show ?thesis using g l6 e4 m by blast
qed

text \<open>
  The claim C4 as stated fails on the empty dictionary, whose value lists are all
  non-empty: the code raises there, and no list of combinations is returned.
\<close>

theorem get_param_grid_odometer_empty_space:
  "isl (get_param_grid ([] :: (string, int) param_space))"
  by (simp add: get_param_grid_def)

text \<open>
  Claim C6, as amended. For every parameter space with at least one parameter and
  non-empty value lists, every \<open>n\<close> with \<open>0 \<le> n < 2^63\<close> and every state of the random
  generator, \<open>get_random_grid\<close> returns exactly \<open>n\<close> experiments, each an element of
  \<open>get_param_grid(params)\<close>. Draw number \<open>i\<close> is the grid element at the index
  \<open>floor(r * len(grid))\<close>, the product being the double-precision one, for the \<open>i\<close>-th
  random value \<open>r\<close> alone, whatever was drawn before: the sampling is with replacement,
  and equal random values give equal experiments.
\<close>

theorem get_random_grid_sample:
  assumes "params \<noteq> []" and "\<forall>(k, vs) \<in> set params. vs \<noteq> []"
    and "0 \<le> n" and "n < 2 ^ 63" and "rng_ok g"
  shows "\<exists>grid es. get_param_grid params = Inr grid \<and>
      fst (get_random_grid params n g) = Inr es \<and>
      length es = nat n \<and> set es \<subseteq> set grid \<and>
      es = map (\<lambda>i. grid ! nat \<lfloor>round_double (g i * py_float (length grid))\<rfloor>) [0..<nat n]"
proof -
  obtain grid where gr: "get_param_grid params = Inr grid"
    using assms(1) by (simp add: get_param_grid_Inr)
  have ne: "grid \<noteq> []" by (rule grid_nonempty[OF assms(1,2) gr])
  let ?es = "map (\<lambda>i. grid ! nat \<lfloor>round_double (g i * py_float (length grid))\<rfloor>) [0..<nat n]"
  have k: "- (2 ^ 63) \<le> n \<and> n < 2 ^ 63" using assms(3,4) by simp
  have r: "fst (get_random_grid params n g) = Inr ?es"
    using k
    by (simp add: get_random_grid_def gr random_choices_def Let_def
        choices_loop_draws[OF ne assms(5)] del: upt_Suc)
  have "nat \<lfloor>round_double (g i * py_float (length grid))\<rfloor> < length grid" for i
  proof -
    obtain k0 where k0: "k0 < 2 ^ 53" "g i = real k0 / 2 ^ 53"
      using assms(5) unfolding rng_ok_def by blast
    show ?thesis unfolding k0(2) by (rule py_nth_draw(2)[OF ne k0(1)])
  qed
  then have sub: "set ?es \<subseteq> set grid" by auto
  show ?thesis using gr r sub by simp
qed

theorem get_random_grid_sample_witness:
  "\<exists>grid es. get_param_grid [(''lr'', [1, 2, 3 :: int])] = Inr grid \<and>
      fst (get_random_grid [(''lr'', [1, 2, 3 :: int])] 2 (\<lambda>i. 6004799503160661 / 2 ^ 53)) = Inr es \<and>
      length es = 2 \<and> set es \<subseteq> set grid \<and>
      es = [[(''lr'', 3)], [(''lr'', 3)]]"
proof -
  let ?p = "[(''lr'', [1, 2, 3 :: int])]"
  let ?g = "\<lambda>i::nat. 6004799503160661 / 2 ^ 53 :: real"
  have "(6004799503160661::nat) < 2 ^ 53 \<and> ?g i = real 6004799503160661 / 2 ^ 53" for i
    by simp
  then have ok: "rng_ok ?g" unfolding rng_ok_def by blast
  have h: "?p \<noteq> []" "\<forall>(k, vs) \<in> set ?p. vs \<noteq> []" "(0::int) \<le> 2" "(2::int) < 2 ^ 63"
    by simp_all
  from get_random_grid_sample[OF h ok] obtain grid es where
    g: "get_param_grid ?p = Inr grid" and
    r: "fst (get_random_grid ?p 2 ?g) = Inr es" and
    l: "length es = nat 2" and s: "set es \<subseteq> set grid" and
    e: "es = map (\<lambda>i. grid ! nat \<lfloor>round_double (?g i * py_float (length grid))\<rfloor>) [0..<nat 2]"
    by blast
  have gv: "grid = [[(''lr'', 1)], [(''lr'', 2)], [(''lr'', 3)]]"
    using g by (simp add: get_param_grid_def itertools_product_def dict_def)
  have n3: "py_float (length grid) = 3"
  proof -
    have "round_double 3 = of_int (rne (3 / 2 powi (1 - 52))) * 2 powi (1 - 52)"
      by (rule round_double_normal) simp_all
    also have "(3::real) / 2 powi (1 - 52) = of_int (3 * 2 ^ 51)"
      by (simp add: power_int_minus field_simps)
    also have "of_int (rne (of_int (3 * 2 ^ 51))) * 2 powi (1 - 52) = (3::real)"
      by (simp only: rne_of_int) (simp add: power_int_minus field_simps)
    finally show ?thesis by (simp add: py_float_def gv)
  qed
  have d: "round_double (6004799503160661 / 2 ^ 53 * 3) = 2"
  proof -
    let ?x = "6004799503160661 / 2 ^ 53 * 3 :: real"
    have "round_double ?x = of_int (rne (?x / 2 powi (0 - 52))) * 2 powi (0 - 52)"
      by (rule round_double_normal) simp_all
    also have "?x / 2 powi (0 - 52) = 18014398509481983 / 2"
      by (simp add: power_int_minus field_simps)
    also have "rne (18014398509481983 / 2) = 9007199254740992"
      by (simp add: rne_def Let_def)
    also have "of_int 9007199254740992 * 2 powi (0 - 52) = (2::real)"
      by (simp add: power_int_minus field_simps)
    finally show ?thesis .
  qed
  have ev: "es = [[(''lr'', 3)], [(''lr'', 3)]]"
    unfolding e n3 d unfolding gv by (simp add: eval_nat_numeral)
  show ?thesis using g r l s ev by simp
qed

text \<open>
  The claim C6 as stated fails on the empty dictionary, where \<open>get_param_grid\<close> raises
  \<open>ValueError\<close> before anything is drawn, and at \<open>n = 2^63\<close>, where \<open>itertools.repeat\<close>
  raises \<open>OverflowError\<close>.
\<close>

theorem get_random_grid_sample_empty_space:
  "fst (get_random_grid ([] :: (string, int) param_space) 2 (\<lambda>i. 1 / 2)) = Inl ValueError \<and>
   fst (get_random_grid [(''lr'', [1, 2 :: int])] (2 ^ 63) (\<lambda>i. 1 / 2)) = Inl OverflowError"
  by (simp add: get_random_grid_def get_param_grid_def random_choices_def)

text \<open>
  Claim C7, as amended. For every parameter space in which some parameter's candidate
  list is empty, \<open>get_param_grid\<close> raises nothing: it returns the empty list of
  experiments.
\<close>

theorem get_param_grid_empty_list:
  assumes "\<exists>(k, vs) \<in> set params. vs = []"
  shows "get_param_grid params = Inr []"
proof -
  have ne: "params \<noteq> []" using assms by auto
  obtain es where g: "get_param_grid params = Inr es"
    using ne by (simp add: get_param_grid_Inr)
  have "(0::nat) \<in> set (map (\<lambda>(k, vs). length vs) params)" using assms by force
  then have "prod_list (map (\<lambda>(k, vs). length vs) params) = 0" by (rule prod_list_zero)
  then show ?thesis using g length_get_param_grid[OF ne g] by simp
qed

theorem get_param_grid_empty_list_witness:
  "get_param_grid [(''learning_rate'', [1, 2 :: int]), (''momentum'', [])] = Inr []"
  using get_param_grid_empty_list[of "[(''learning_rate'', [1, 2 :: int]), (''momentum'', [])]"]
  by simp

text \<open>
  The claim C7 as stated fails: on \<open>{"a": [1,2], "b": []}\<close> the code returns \<open>[]\<close> and no
  error of any kind.
\<close>

theorem get_param_grid_no_InvalidSpace:
  "\<not> isl (get_param_grid [(''a'', [1, 2 :: int]), (''b'', [])]) \<and>
   get_param_grid [(''a'', [1, 2 :: int]), (''b'', [])] = Inr []"
  by (simp add: get_param_grid_def itertools_product_def)

text \<open>
  Claim C8, as amended. For every parameter space with at least one parameter and every
  \<open>n < 0\<close>, \<open>get_random_grid\<close> never reports an invalid argument. For \<open>-2^63 \<le> n < 0\<close> it
  raises nothing: it returns the empty list and leaves the random generator as it was.
  For \<open>n < -2^63\<close> it raises the \<open>OverflowError\<close> of \<open>itertools.repeat\<close>, again without
  drawing.
\<close>

theorem get_random_grid_negative:
  assumes "params \<noteq> []" and "n < 0"
  shows "get_random_grid params n g =
           (if - (2 ^ 63) \<le> n then Inr [] else Inl OverflowError, g)"
  using assms by (simp add: get_random_grid_def get_param_grid_Inr random_choices_def)

theorem get_random_grid_negative_witness:
  "get_random_grid [(''lr'', [1, 2 :: int])] (- 3) (\<lambda>i. 0) = (Inr [], \<lambda>i. 0) \<and>
   get_random_grid [(''lr'', [1, 2 :: int])] (- (2 ^ 63)) (\<lambda>i. 0) = (Inr [], \<lambda>i. 0) \<and>
   get_random_grid [(''lr'', [1, 2 :: int])] (- (2 ^ 63) - 1) (\<lambda>i. 0) = (Inl OverflowError, \<lambda>i. 0)"
  using get_random_grid_negative[of "[(''lr'', [1, 2 :: int])]" "- 3" "\<lambda>i. 0"]
    get_random_grid_negative[of "[(''lr'', [1, 2 :: int])]" "- (2 ^ 63)" "\<lambda>i. 0"]
    get_random_grid_negative[of "[(''lr'', [1, 2 :: int])]" "- (2 ^ 63) - 1" "\<lambda>i. 0"]
  by simp

text \<open>
  The claim C8 as stated fails: with \<open>n = -1\<close> the code returns \<open>[]\<close> and no error of any
  kind.
\<close>

theorem get_random_grid_no_InvalidArgument:
  "\<not> isl (fst (get_random_grid [(''a'', [1, 2 :: int]), (''b'', [10, 20])] (- 1) (\<lambda>i. 0))) \<and>
   fst (get_random_grid [(''a'', [1, 2 :: int]), (''b'', [10, 20])] (- 1) (\<lambda>i. 0)) = Inr []"
  by (simp add: get_random_grid_def get_param_grid_def random_choices_def)

section \<open>Properties of the Gaussian process posterior\<close>

subsection \<open>Arrays built from their entries\<close>

lemma nrows_mk [simp]: "nrows (mk_mat r c f) = r"
  and ncols_mk [simp]: "ncols (mk_mat r c f) = c"
  by (simp_all add: mk_mat_def)

lemma entry_mk [simp]: "i < r \<Longrightarrow> j < c \<Longrightarrow> entry (mk_mat r c f) i j = f i j"
  by (simp add: mk_mat_def entry_def)

lemma wf_mk [simp]: "wf_mat (mk_mat r c f)"
  by (simp add: mk_mat_def wf_mat_def list_all_iff)








lemma py_nth_0: "xs \<noteq> [] \<Longrightarrow> py_nth xs 0 = Inr (xs ! 0)"
  by (simp add: py_nth_def)

lemma py_nth_1: "2 \<le> length xs \<Longrightarrow> py_nth xs 1 = Inr (xs ! 1)"
  by (simp add: py_nth_def)


subsection \<open>Finite sums\<close>




subsection \<open>Inverses\<close>




subsection \<open>The covariance matrix in double precision\<close>

lemma squared_differences_shape:
  "length (squared_differences x y) = array_len x"
  "i < array_len x \<Longrightarrow> length (squared_differences x y ! i) = array_len y"
  by (cases x; cases y; simp add: squared_differences_def array_len_def as_float64_def)+

lemma squared_differences_sym:
  assumes "i < array_len X" and "j < array_len X"
  shows "squared_differences X X ! i ! j = squared_differences X X ! j ! i"
proof (cases X)
  case (F64 xs)
  then show ?thesis
    using assms fp_sub_sq[of "xs ! i" "xs ! j"]
    by (simp add: squared_differences_def array_len_def as_float64_def)
next
  case (I64 ws)
  then show ?thesis
    using assms int64_sub_sq[of "ws ! i" "ws ! j"]
    by (simp add: squared_differences_def array_len_def)
qed

lemma exponential_cov_f64_entries:
  assumes "2 \<le> length theta"
  shows "exponential_cov_f64 np_exp x y theta =
    Inr (map (map (\<lambda>s. fp_mul (theta ! 0) (np_exp (fp_mul (fp_mul (Fin (- 0.5)) (theta ! 1)) s))))
           (squared_differences x y))"
proof -
  have "theta \<noteq> []" using assms by auto
  then show ?thesis
    using assms by (simp add: exponential_cov_f64_def err_bind_def py_nth_0 py_nth_1 Let_def)
qed

text \<open>
  Claim C9, as amended. For every list of points \<open>X\<close> (floats, or integers that fit 64
  bits) and every kernel parameter vector \<open>theta\<close> that holds \<open>theta[0]\<close> and \<open>theta[1]\<close>,
  \<open>exponential_cov(X, X, theta)\<close> returns a square matrix \<open>M\<close> in which \<open>M[i][j]\<close> and
  \<open>M[j][i]\<close> are the same double for all valid \<open>i\<close>, \<open>j\<close>. The comparison
  \<open>M[i][j] == M[j][i]\<close> is therefore true exactly when the entry is not NaN. This holds
  whatever function of its argument \<open>np.exp\<close> is.
\<close>

theorem exponential_cov_symmetric:
  assumes "2 \<le> length theta"
  shows "\<exists>M. exponential_cov_f64 np_exp X X theta = Inr M \<and> length M = array_len X \<and>
           (\<forall>i<array_len X. length (M ! i) = array_len X) \<and>
           (\<forall>i<array_len X. \<forall>j<array_len X.
              M ! i ! j = M ! j ! i \<and> (fp_eq (M ! i ! j) (M ! j ! i) \<longleftrightarrow> M ! i ! j \<noteq> NaN))"
proof -
  let ?f = "\<lambda>s. fp_mul (theta ! 0) (np_exp (fp_mul (fp_mul (Fin (- 0.5)) (theta ! 1)) s))"
  let ?S = "squared_differences X X"
  let ?M = "map (map ?f) ?S"
  have e: "exponential_cov_f64 np_exp X X theta = Inr ?M"
    by (rule exponential_cov_f64_entries[OF assms])
  have l: "length ?M = array_len X" by (simp add: squared_differences_shape)
  have r: "length (?M ! i) = array_len X" if "i < array_len X" for i
    using that by (simp add: squared_differences_shape)
  have c: "?M ! i ! j = ?f (?S ! i ! j)" if "i < array_len X" "j < array_len X" for i j
    using that by (simp add: squared_differences_shape)
  have "?M ! i ! j = ?M ! j ! i" if "i < array_len X" "j < array_len X" for i j
    using that c[of i j] c[of j i] squared_differences_sym[of i X j] by simp
  then have "\<forall>i<array_len X. \<forall>j<array_len X.
      ?M ! i ! j = ?M ! j ! i \<and> (fp_eq (?M ! i ! j) (?M ! j ! i) \<longleftrightarrow> ?M ! i ! j \<noteq> NaN)"
    by (simp add: fp_eq_def)
  then show ?thesis using e l r by blast
qed

theorem exponential_cov_symmetric_witness:
  "\<exists>M. exponential_cov_f64 fp_exp (I64 [0, 4000000000]) (I64 [0, 4000000000]) [Fin 1, Fin 1]
          = Inr M \<and>
        M = [[Fin 1, PInf], [PInf, Fin 1]] \<and> M ! 0 ! 1 = M ! 1 ! 0 \<and> fp_eq (M ! 0 ! 1) (M ! 1 ! 0)"
proof -
  let ?X = "I64 [0, 4000000000]"
  from exponential_cov_symmetric[of "[Fin 1, Fin 1]" fp_exp ?X] obtain M where
    m: "exponential_cov_f64 fp_exp ?X ?X [Fin 1, Fin 1] = Inr M"
      "\<forall>i<array_len ?X. \<forall>j<array_len ?X.
         M ! i ! j = M ! j ! i \<and> (fp_eq (M ! i ! j) (M ! j ! i) \<longleftrightarrow> M ! i ! j \<noteq> NaN)"
    by auto
  have "(0::nat) < array_len ?X" "(1::nat) < array_len ?X" by (simp_all add: array_len_def)
  from m(2)[rule_format, OF this]
  have s: "M ! 0 ! 1 = M ! 1 ! 0 \<and> (fp_eq (M ! 0 ! 1) (M ! 1 ! 0) \<longleftrightarrow> M ! 0 ! 1 \<noteq> NaN)" .
  have r: "rnd 0 = Fin 0" "rnd 1 = Fin 1"
    using rnd_small_int[of 0] rnd_small_int[of 1] by simp_all
  have c: "fp_mul (Fin (- (1 / 2))) (Fin 1) = Fin (- (1 / 2))"
    by (simp add: fp_mul_Fin rnd_half)
  have w: "sint (((0::64 word) - 4000000000) * (0 - 4000000000)) = - 2446744073709551616"
    "sint ((4000000000::64 word) * 4000000000) = - 2446744073709551616"
    by simp_all
  have big: "rnd (- 2446744073709551616) = Fin (- 2446744073709551616)"
  proof -
    have "rnd (of_int (- 583349245479) * 2 powi 22) = Fin (of_int (- 583349245479) * 2 powi 22)"
      by (intro rnd_exact) simp_all
    then show ?thesis by simp
  qed
  have sq: "squared_differences ?X ?X =
      [[Fin 0, Fin (- 2446744073709551616)], [Fin (- 2446744073709551616), Fin 0]]"
    by (simp add: squared_differences_def int64_to_double_def w r big)
  have prod: "rnd (1223372036854775808) = Fin (1223372036854775808)"
  proof -
    have "rnd (of_int 583349245479 * 2 powi 21) = Fin (of_int 583349245479 * 2 powi 21)"
      by (intro rnd_exact) simp_all
    then show ?thesis by simp
  qed
  have diag: "fp_mul (Fin 1) (fp_exp (fp_mul (Fin (- (1 / 2))) (Fin 0))) = Fin 1"
    by (simp add: fp_mul_Fin fp_exp_Fin r)
  have off: "fp_mul (Fin 1) (fp_exp (fp_mul (Fin (- (1 / 2))) (Fin (- 2446744073709551616)))) = PInf"
    by (simp add: fp_mul_Fin fp_exp_Fin prod exp_overflow fp_mul_one_PInf)
  have "exponential_cov_f64 fp_exp ?X ?X [Fin 1, Fin 1] = Inr [[Fin 1, PInf], [PInf, Fin 1]]"
    by (simp add: exponential_cov_f64_def err_bind_def py_nth_def Let_def sq c diag off)
  then have M: "M = [[Fin 1, PInf], [PInf, Fin 1]]" using m(1) by simp
  then have "M ! 0 ! 1 \<noteq> NaN" by simp
  then show ?thesis using m(1) s M by blast
qed

text \<open>
  The claim C9 as stated fails where an entry is NaN. With \<open>theta = [0.0, -1.0]\<close> and
  \<open>X = [0.0, 100.0]\<close> the argument of the exponential off the diagonal is \<open>5000\<close>, the
  exponential overflows to infinity, and the product of zero and infinity is NaN, which
  is not equal to itself.
\<close>

theorem exponential_cov_nan:
  "exponential_cov_f64 fp_exp (F64 [Fin 0, Fin 100]) (F64 [Fin 0, Fin 100]) [Fin 0, Fin (- 1)] =
     Inr [[Fin 0, NaN], [NaN, Fin 0]] \<and>
   \<not> fp_eq ([[Fin 0, NaN], [NaN, Fin 0]] ! 0 ! 1) ([[Fin 0, NaN], [NaN, Fin 0]] ! 1 ! 0)"
proof -
  have r: "rnd 0 = Fin 0" "rnd 1 = Fin 1" "rnd 100 = Fin 100" "rnd (- 100) = Fin (- 100)"
    "rnd 10000 = Fin 10000" "rnd 5000 = Fin 5000"
    using rnd_small_int[of 0] rnd_small_int[of 1] rnd_small_int[of 100] rnd_small_int[of "- 100"]
      rnd_small_int[of 10000] rnd_small_int[of 5000]
    by simp_all
  have c: "fp_mul (Fin (- (1 / 2))) (Fin (- 1)) = Fin (1 / 2)"
    by (simp add: fp_mul_Fin rnd_half)
  have s: "squared_differences (F64 [Fin 0, Fin 100]) (F64 [Fin 0, Fin 100]) =
      [[Fin 0, Fin 10000], [Fin 10000, Fin 0]]"
    by (simp add: squared_differences_def as_float64_def fp_sub_Fin fp_mul_Fin r)
  have diag: "fp_mul (Fin 0) (fp_exp (fp_mul (Fin (1 / 2)) (Fin 0))) = Fin 0"
    by (simp add: fp_mul_Fin fp_exp_Fin r)
  have off: "fp_mul (Fin 0) (fp_exp (fp_mul (Fin (1 / 2)) (Fin 10000))) = NaN"
    by (simp add: fp_mul_Fin fp_exp_Fin r exp_overflow fp_mul_zero_PInf)
  have "exponential_cov_f64 fp_exp (F64 [Fin 0, Fin 100]) (F64 [Fin 0, Fin 100]) [Fin 0, Fin (- 1)] =
     Inr [[Fin 0, NaN], [NaN, Fin 0]]"
    by (simp add: exponential_cov_f64_def err_bind_def py_nth_def Let_def s c diag off)
  then show ?thesis by (simp add: fp_eq_def)
qed

subsection \<open>The posterior\<close>


subsection \<open>Concrete arrays\<close>



subsection \<open>The claim on \<open>conditional\<close>\<close>



end
